theory Spec2Isabelle
  imports Main "HOL-Library.List_Lexorder" "HOL-Library.Multiset"
begin

section \<open>Python strings\<close>

text \<open>
  A Python \<open>str\<close> is a sequence of Unicode code points. A code point is modelled by its
  number, so that the whitespace and line-boundary tables of \<open>str.strip\<close> and
  \<open>str.splitlines\<close> are the ones of CPython and the comparison of two strings is the
  comparison of their code points, position by position.
\<close>

type_synonym codepoint = nat
type_synonym str = "codepoint list"

definition lit :: "string \<Rightarrow> str" where
  "lit cs = map of_char cs"

definition NUL :: codepoint where "NUL = 0"
definition DQUOTE :: codepoint where "DQUOTE = 34"
definition HASH :: codepoint where "HASH = 35"
definition SQUOTE :: codepoint where "SQUOTE = 39"
definition EQUALS :: codepoint where "EQUALS = 61"

text \<open>The code points for which \<open>str.isspace\<close> holds; \<open>str.strip()\<close> removes them.\<close>

definition is_whitespace :: "codepoint \<Rightarrow> bool" where
  "is_whitespace c \<longleftrightarrow>
     (9 \<le> c \<and> c \<le> 13) \<or> (28 \<le> c \<and> c \<le> 32) \<or> c = 133 \<or> c = 160 \<or> c = 5760 \<or>
     (8192 \<le> c \<and> c \<le> 8202) \<or> c = 8232 \<or> c = 8233 \<or> c = 8239 \<or> c = 8287 \<or> c = 12288"

text \<open>The line boundaries of \<open>str.splitlines\<close>.\<close>

definition is_linebreak :: "codepoint \<Rightarrow> bool" where
  "is_linebreak c \<longleftrightarrow>
     (10 \<le> c \<and> c \<le> 13) \<or> (28 \<le> c \<and> c \<le> 30) \<or> c = 133 \<or> c = 8232 \<or> c = 8233"

definition lstrip_by :: "(codepoint \<Rightarrow> bool) \<Rightarrow> str \<Rightarrow> str" where
  "lstrip_by P s = dropWhile P s"

definition rstrip_by :: "(codepoint \<Rightarrow> bool) \<Rightarrow> str \<Rightarrow> str" where
  "rstrip_by P s = rev (dropWhile P (rev s))"

definition strip_by :: "(codepoint \<Rightarrow> bool) \<Rightarrow> str \<Rightarrow> str" where
  "strip_by P s = rstrip_by P (lstrip_by P s)"

text \<open>\<open>s.strip()\<close>\<close>

definition strip :: "str \<Rightarrow> str" where
  "strip s = strip_by is_whitespace s"

text \<open>\<open>s.strip(chars)\<close>: every leading and every trailing code point that occurs in
  \<open>chars\<close> is removed.\<close>

definition strip_chars :: "str \<Rightarrow> str \<Rightarrow> str" where
  "strip_chars chars s = strip_by (\<lambda>c. c \<in> set chars) s"

text \<open>\<open>s.startswith(p)\<close>\<close>

definition startswith :: "str \<Rightarrow> str \<Rightarrow> bool" where
  "startswith s p \<longleftrightarrow> take (length p) s = p"

text \<open>\<open>s.split(sep, 1)\<close> for a separator of one code point: the text before the first
  separator and the text after it, or the whole string alone when there is none.\<close>

definition split_once :: "codepoint \<Rightarrow> str \<Rightarrow> str list" where
  "split_once sep s =
     (case dropWhile (\<lambda>c. c \<noteq> sep) s of
        [] \<Rightarrow> [s]
      | _ # rest \<Rightarrow> [takeWhile (\<lambda>c. c \<noteq> sep) s, rest])"

text \<open>\<open>s.splitlines()\<close>: a carriage return followed by a line feed is one boundary, and
  a boundary at the end of the text opens no further line.\<close>

fun drop_break :: "str \<Rightarrow> str" where
  "drop_break [] = []"
| "drop_break [c] = []"
| "drop_break (c # d # s) = (if c = 13 \<and> d = 10 then s else d # s)"

lemma length_drop_break: "length (drop_break s) \<le> length s"
  by (induction s rule: drop_break.induct) auto

function splitlines :: "str \<Rightarrow> str list" where
  "splitlines s =
     (if s = [] then []
      else takeWhile (\<lambda>c. \<not> is_linebreak c) s
             # splitlines (drop_break (dropWhile (\<lambda>c. \<not> is_linebreak c) s)))"
  by pat_completeness auto
termination
proof (relation "measure length")
  show "wf (measure length)" by simp
next
  fix s :: str
  assume ne: "s \<noteq> []"
  let ?r = "dropWhile (\<lambda>c. \<not> is_linebreak c) s"
  show "(drop_break ?r, s) \<in> measure length"
  proof (cases ?r)
    case Nil
    have "length (drop_break ?r) = 0"
      unfolding Nil by simp
    with ne show ?thesis by simp
  next
    case (Cons c r')
    have "length (drop_break ?r) < length ?r"
      unfolding Cons by (cases r') auto
    moreover have "length ?r \<le> length s"
      by (rule length_dropWhile_le)
    ultimately show ?thesis by simp
  qed
qed

declare splitlines.simps [simp del]

section \<open>Exceptions and the process environment\<close>

text \<open>An exception is represented by its message, the text \<open>str(exc)\<close>.\<close>

datatype exn = Exception str

type_synonym environ = "str \<rightharpoonup> str"

text \<open>
  \<open>os.environ\<close> on a POSIX system: a mapping from names to values, the names compared
  as they are written. \<open>os.environ[key] = value\<close> raises \<open>ValueError\<close> when the key or
  the value holds a NUL code point; an empty key or a key holding \<open>=\<close> is refused as
  well. (A text decoded from UTF-8 holds no surrogate code point, so encoding a key or a
  value of the file for the environment does not fail.)
\<close>

definition environ_setitem :: "environ \<Rightarrow> str \<Rightarrow> str \<Rightarrow> exn + environ" where
  "environ_setitem env key val =
     (if NUL \<in> set key \<or> NUL \<in> set val then Inl (Exception (lit ''embedded null byte''))
      else if key = [] \<or> EQUALS \<in> set key
        then Inl (Exception (lit ''illegal environment variable name''))
      else Inr (env(key \<mapsto> val)))"

section \<open>The configuration loader\<close>

text \<open>
  The body of the loop of \<open>load_dotenv\<close> for one line. The unpacking
  \<open>key, value = raw.split("=", 1)\<close> raises when the split has one part only.
\<close>

definition load_line :: "environ \<Rightarrow> str \<Rightarrow> exn + environ" where
  "load_line env line =
     (let raw = strip line in
      if raw = [] \<or> startswith raw [HASH] \<or> EQUALS \<notin> set raw then Inr env
      else
        (case split_once EQUALS raw of
           [key, val] \<Rightarrow>
             (let key = strip key;
                  val = strip_chars [DQUOTE] (strip_chars [SQUOTE] (strip val))
              in if key \<noteq> [] \<and> env key = None then environ_setitem env key val
                 else Inr env)
         | _ \<Rightarrow> Inl (Exception (lit ''not enough values to unpack (expected 2, got 1)''))))"

text \<open>
  The loop over the lines. The environment is process-wide state that is updated in
  place, so the entries set before a line raises stay set: the result is the environment
  as the loop leaves it, with the exception that ended it, if any.
\<close>

fun load_lines :: "environ \<Rightarrow> str list \<Rightarrow> exn option \<times> environ" where
  "load_lines env [] = (None, env)"
| "load_lines env (line # rest) =
     (case load_line env line of
        Inl e \<Rightarrow> (Some e, env)
      | Inr env' \<Rightarrow> load_lines env' rest)"

text \<open>
  The file at \<open>dotenv_path\<close>: \<open>None\<close> when \<open>is_file()\<close> is false, otherwise the outcome
  of \<open>read_text(encoding="utf-8")\<close>, the decoded text or the exception raised.
\<close>

type_synonym dotenv_file = "(exn + str) option"

definition load_dotenv :: "dotenv_file \<Rightarrow> environ \<Rightarrow> exn option \<times> environ" where
  "load_dotenv dotenv_path env =
     (case dotenv_path of
        None \<Rightarrow> (None, env)
      | Some (Inl e) \<Rightarrow> (Some e, env)
      | Some (Inr text) \<Rightarrow> load_lines env (splitlines text))"

section \<open>The migration runner\<close>

text \<open>
  What the runner does to the outside world is recorded as a trace: the lines it prints
  and the calls it makes, each call with the exception it raised, if any. Leaving the
  scope of a \<open>with\<close> statement releases the cursor or the connection; it is recorded as
  an event and taken not to raise.
\<close>

datatype call = Connect str | Cursor | Read_text str | Execute str | Commit

datatype event = Print str | Call call "exn option" | Exit_cursor | Exit_connection

text \<open>
  The database driver. Its answers may depend on everything sent before, so the
  connection carries a state of the driver's own: each call returns the next state or
  raises.
\<close>

record 'c driver =
  connect :: "str \<Rightarrow> exn + 'c"
  cursor :: "'c \<Rightarrow> exn + 'c"
  execute :: "'c \<Rightarrow> str \<Rightarrow> exn + 'c"
  commit :: "'c \<Rightarrow> exn + 'c"

text \<open>A path the glob yields: its \<open>name\<close> and the outcome of \<open>read_text\<close> on it.\<close>

record path =
  path_name :: str
  read_text :: "exn + str"

text \<open>
  What the program finds around it: the configuration file, the text of the resolved
  migrations directory path, \<open>None\<close> when that path is no directory and otherwise the
  paths \<open>glob("*.sql")\<close> yields, in the order it yields them, and the driver.
\<close>

record 'c world =
  dotenv_path :: dotenv_file
  migrations_dir :: str
  glob_sql :: "path list option"
  psycopg :: "'c driver"

definition DATABASE_URL :: str where
  "DATABASE_URL = lit ''DATABASE_URL''"

definition running :: "str \<Rightarrow> str" where
  "running name = lit ''Running '' @ name @ lit ''...''"

definition migration_failed :: "str \<Rightarrow> str" where
  "migration_failed msg = lit ''Migration failed: '' @ msg"

definition migrations_applied :: str where
  "migrations_applied = lit ''Migrations applied.''"

text \<open>The \<open>for\<close> loop over the sorted paths, inside the cursor's scope.\<close>

fun run_files :: "'c driver \<Rightarrow> 'c \<Rightarrow> path list \<Rightarrow> event list \<times> (exn + 'c)" where
  "run_files drv cur [] = ([], Inr cur)"
| "run_files drv cur (p # ps) =
     (case read_text p of
        Inl e \<Rightarrow> ([Call (Read_text (path_name p)) (Some e)], Inl e)
      | Inr sql \<Rightarrow>
          (case execute drv cur sql of
             Inl e \<Rightarrow>
               ([Call (Read_text (path_name p)) None, Print (running (path_name p)),
                 Call (Execute sql) (Some e)], Inl e)
           | Inr cur' \<Rightarrow>
               (case run_files drv cur' ps of
                  (t, r) \<Rightarrow>
                    (Call (Read_text (path_name p)) None # Print (running (path_name p))
                       # Call (Execute sql) None # t, r))))"

text \<open>The body of the \<open>try\<close> statement: both \<open>with\<close> scopes and the commit.\<close>

definition in_connection :: "'c driver \<Rightarrow> 'c \<Rightarrow> path list \<Rightarrow> event list \<times> (exn + 'c)" where
  "in_connection drv conn files =
     (case cursor drv conn of
        Inl e \<Rightarrow> ([Call Cursor (Some e)], Inl e)
      | Inr cur \<Rightarrow>
          (case run_files drv cur files of
             (t, Inl e) \<Rightarrow> (Call Cursor None # t @ [Exit_cursor], Inl e)
           | (t, Inr cur') \<Rightarrow>
               (case commit drv cur' of
                  Inl e \<Rightarrow> (Call Cursor None # t @ [Exit_cursor, Call Commit (Some e)], Inl e)
                | Inr conn' \<Rightarrow>
                    (Call Cursor None # t @ [Exit_cursor, Call Commit None], Inr conn'))))"

definition apply_migrations :: "'c driver \<Rightarrow> str \<Rightarrow> path list \<Rightarrow> event list \<times> (exn + 'c)" where
  "apply_migrations drv database_url files =
     (case connect drv database_url of
        Inl e \<Rightarrow> ([Call (Connect database_url) (Some e)], Inl e)
      | Inr conn \<Rightarrow>
          (case in_connection drv conn files of
             (t, r) \<Rightarrow> (Call (Connect database_url) None # t @ [Exit_connection], r)))"

text \<open>
  \<open>main\<close>: the trace and either the value returned or the exception that leaves
  \<open>main\<close> uncaught (only the loader, which runs outside the \<open>try\<close>, can raise one).
  \<open>sorted\<close> compares the paths; the paths of one directory differ in their last
  component only, so it orders them by name, and two names compare as Python compares two
  strings: code point by code point (POSIX paths, no case folding).
\<close>

definition main :: "'c world \<Rightarrow> environ \<Rightarrow> event list \<times> (exn + int)" where
  "main w environ =
     (case load_dotenv (dotenv_path w) environ of
        (Some e, env) \<Rightarrow> ([], Inl e)
      | (None, env) \<Rightarrow>
          (case env DATABASE_URL of
             None \<Rightarrow> ([Print (lit ''DATABASE_URL is not set.'')], Inr 1)
           | Some database_url \<Rightarrow>
               if database_url = [] then ([Print (lit ''DATABASE_URL is not set.'')], Inr 1)
               else
                 (case glob_sql w of
                    None \<Rightarrow>
                      ([Print (lit ''migrations directory not found: '' @ migrations_dir w)],
                       Inr 1)
                  | Some paths \<Rightarrow>
                      (let files = sort_key path_name paths in
                       if files = [] then ([Print (lit ''No migration files found.'')], Inr 1)
                       else
                         (case apply_migrations (psycopg w) database_url files of
                            (t, Inl (Exception msg)) \<Rightarrow>
                              (t @ [Print (migration_failed msg)], Inr 1)
                          | (t, Inr _) \<Rightarrow> (t @ [Print migrations_applied], Inr 0))))))"

text \<open>
  The status the process ends with: \<open>raise SystemExit(main())\<close> ends it with the value
  \<open>main\<close> returns, and an exception nothing catches ends it with status 1.
\<close>

definition exit_status :: "exn + int \<Rightarrow> int" where
  "exit_status r = (case r of Inl e \<Rightarrow> 1 | Inr n \<Rightarrow> n)"

section \<open>Observations on a trace\<close>

text \<open>The lines printed, in order.\<close>

fun printed :: "event list \<Rightarrow> str list" where
  "printed [] = []"
| "printed (Print s # t) = s # printed t"
| "printed (e # t) = printed t"

text \<open>The SQL texts handed to \<open>cur.execute\<close>, in order, whether the call raised or not.\<close>

fun executes :: "event list \<Rightarrow> str list" where
  "executes [] = []"
| "executes (Call (Execute sql) r # t) = sql # executes t"
| "executes (e # t) = executes t"

text \<open>The SQL texts whose \<open>cur.execute\<close> returned without raising, in order.\<close>

fun executed_ok :: "event list \<Rightarrow> str list" where
  "executed_ok [] = []"
| "executed_ok (Call (Execute sql) None # t) = sql # executed_ok t"
| "executed_ok (e # t) = executed_ok t"

text \<open>The connection strings handed to \<open>psycopg.connect\<close>: every attempt to connect.\<close>

fun connection_attempts :: "event list \<Rightarrow> str list" where
  "connection_attempts [] = []"
| "connection_attempts (Call (Connect url) r # t) = url # connection_attempts t"
| "connection_attempts (e # t) = connection_attempts t"

text \<open>How many times \<open>conn.commit()\<close> returned without raising.\<close>

definition commits :: "event list \<Rightarrow> nat" where
  "commits t = count_list t (Call Commit None)"

section \<open>The specification's reading of quoted values\<close>

text \<open>
  Following the specification's words, not the code: a value is wrapped when it starts
  and ends with the same quote character, and then exactly that one pair is taken off;
  any other value is kept as it is.
\<close>

definition wrapped_in_quotes :: "str \<Rightarrow> bool" where
  "wrapped_in_quotes v \<longleftrightarrow>
     2 \<le> length v \<and> hd v = last v \<and> (hd v = SQUOTE \<or> hd v = DQUOTE)"

definition spec_unquote :: "str \<Rightarrow> str" where
  "spec_unquote v = (if wrapped_in_quotes v then butlast (tl v) else v)"

section \<open>Example runs\<close>

text \<open>
  A driver that keeps the texts it has executed, refuses the text \<open>bad\<close>, and commits;
  and one that executes everything and raises at the commit.
\<close>

definition example_driver :: "str list driver" where
  "example_driver =
     \<lparr>connect = (\<lambda>url. Inr []),
      cursor = (\<lambda>conn. Inr conn),
      execute = (\<lambda>cur sql. if sql = lit ''bad'' then Inl (Exception (lit ''syntax error''))
                             else Inr (cur @ [sql])),
      commit = (\<lambda>conn. Inr conn)\<rparr>"

definition failing_commit_driver :: "str list driver" where
  "failing_commit_driver =
     \<lparr>connect = (\<lambda>url. Inr []),
      cursor = (\<lambda>conn. Inr conn),
      execute = (\<lambda>cur sql. Inr (cur @ [sql])),
      commit = (\<lambda>conn. Inl (Exception (lit ''constraint violated'')))\<rparr>"

definition example_world :: "dotenv_file \<Rightarrow> path list option \<Rightarrow> 'c driver \<Rightarrow> 'c world" where
  "example_world file paths drv =
     \<lparr>dotenv_path = file, migrations_dir = lit ''/app/migrations'', glob_sql = paths,
      psycopg = drv\<rparr>"

definition sql_file :: "string \<Rightarrow> string \<Rightarrow> path" where
  "sql_file name sql = \<lparr>path_name = lit name, read_text = Inr (lit sql)\<rparr>"

definition unreadable_file :: "string \<Rightarrow> string \<Rightarrow> path" where
  "unreadable_file name msg = \<lparr>path_name = lit name, read_text = Inl (Exception (lit msg))\<rparr>"

definition database_env :: environ where
  "database_env = [DATABASE_URL \<mapsto> lit ''postgres://db'']"

definition two_files :: "path list" where
  "two_files = [sql_file ''002_add_index.sql'' ''create index'',
                sql_file ''001_init.sql'' ''create table'']"

definition bad_second :: "path list" where
  "bad_second = [sql_file ''001_init.sql'' ''create table'',
                 sql_file ''002_add_index.sql'' ''bad'']"

definition unreadable_second :: "path list" where
  "unreadable_second = [sql_file ''001_init.sql'' ''create table'',
                        unreadable_file ''002_add_index.sql'' ''permission denied'']"

text \<open>The definitions that evaluating a concrete run unfolds.\<close>

lemmas str_eval =
  lit_def strip_def strip_chars_def strip_by_def lstrip_by_def rstrip_by_def is_whitespace_def
  startswith_def split_once_def EQUALS_def HASH_def SQUOTE_def DQUOTE_def NUL_def

lemmas run_eval =
  main_def load_dotenv_def apply_migrations_def in_connection_def load_line_def
  environ_setitem_def DATABASE_URL_def running_def migration_failed_def migrations_applied_def
  example_driver_def failing_commit_driver_def example_world_def sql_file_def
  unreadable_file_def exit_status_def commits_def splitlines.simps is_linebreak_def

lemmas example_eval =
  run_eval str_eval database_env_def two_files_def bad_second_def unreadable_second_def

section \<open>Properties of the string operations\<close>

lemma dropWhile_keeps: "c \<in> set s \<Longrightarrow> \<not> P c \<Longrightarrow> c \<in> set (dropWhile P s)"
  by (induction s) auto

lemma set_strip_by: "set (strip_by P s) \<subseteq> set s"
proof -
  have "set (rstrip_by P (lstrip_by P s)) \<subseteq> set (lstrip_by P s)"
    unfolding rstrip_by_def using set_dropWhileD [of _ P "rev (lstrip_by P s)"] by auto
  moreover have "set (lstrip_by P s) \<subseteq> set s"
    unfolding lstrip_by_def by (auto dest: set_dropWhileD)
  ultimately show ?thesis unfolding strip_by_def by blast
qed

lemma strip_by_keeps: "c \<in> set s \<Longrightarrow> \<not> P c \<Longrightarrow> c \<in> set (strip_by P s)"
  unfolding strip_by_def rstrip_by_def lstrip_by_def
  by (simp add: dropWhile_keeps)

lemma not_whitespace [simp]:
  "\<not> is_whitespace EQUALS" "\<not> is_whitespace HASH" "\<not> is_whitespace SQUOTE"
  "\<not> is_whitespace DQUOTE" "\<not> is_whitespace NUL"
  by (simp_all add: is_whitespace_def EQUALS_def HASH_def SQUOTE_def DQUOTE_def NUL_def)

lemma equals_in_strip: "EQUALS \<in> set (strip line) \<longleftrightarrow> EQUALS \<in> set line"
  unfolding strip_def using set_strip_by [of is_whitespace line] strip_by_keeps [of EQUALS line is_whitespace]
  by auto

lemma strip_by_append:
  assumes "\<not> P c"
  shows "strip_by P (a @ c # b) = dropWhile P a @ c # rstrip_by P b"
proof -
  have l: "dropWhile P (a @ c # b) = dropWhile P a @ c # b"
    using assms by (simp add: dropWhile_append)
  have "dropWhile P (rev b @ c # rev (dropWhile P a)) = dropWhile P (rev b) @ c # rev (dropWhile P a)"
    using assms by (simp add: dropWhile_append)
  then show ?thesis
    unfolding strip_by_def rstrip_by_def lstrip_by_def l by simp
qed

lemma rstrip_by_Cons:
  "rstrip_by P (x # s) = (if rstrip_by P s = [] \<and> P x then [] else x # rstrip_by P s)"
  unfolding rstrip_by_def by (simp add: dropWhile_append)

lemma rstrip_by_Nil [simp]: "rstrip_by P [] = []"
  unfolding rstrip_by_def by simp

lemma rstrip_by_idem: "rstrip_by P (rstrip_by P s) = rstrip_by P s"
  unfolding rstrip_by_def by simp

lemma rstrip_by_all: "rstrip_by P s = [] \<longleftrightarrow> (\<forall>c \<in> set s. P c)"
  unfolding rstrip_by_def by (simp add: dropWhile_eq_Nil_conv)

lemma lstrip_rstrip: "dropWhile P (rstrip_by P s) = rstrip_by P (dropWhile P s)"
proof (induction s)
  case Nil
  show ?case by simp
next
  case (Cons x s)
  show ?case
  proof (cases "P x")
    case True
    show ?thesis
    proof (cases "rstrip_by P s = []")
      case True
      with \<open>P x\<close> Cons show ?thesis by (simp add: rstrip_by_Cons)
    next
      case False
      with \<open>P x\<close> Cons show ?thesis by (simp add: rstrip_by_Cons)
    qed
  next
    case False
    then show ?thesis by (simp add: rstrip_by_Cons)
  qed
qed

lemma strip_by_lstrip: "strip_by P (dropWhile P s) = strip_by P s"
  unfolding strip_by_def lstrip_by_def by simp

lemma strip_by_rstrip: "strip_by P (rstrip_by P s) = strip_by P s"
  unfolding strip_by_def lstrip_by_def by (simp add: lstrip_rstrip rstrip_by_idem)

lemma split_once_at:
  assumes "c \<notin> set a"
  shows "split_once c (a @ c # b) = [a, b]"
proof -
  have "dropWhile (\<lambda>x. x \<noteq> c) (a @ c # b) = c # b"
    using assms by (simp add: dropWhile_append)
  moreover have "takeWhile (\<lambda>x. x \<noteq> c) (a @ c # b) = a"
    using assms by (simp add: takeWhile_append)
  ultimately show ?thesis unfolding split_once_def by simp
qed

lemma dropWhile_stays: "s \<noteq> [] \<Longrightarrow> \<not> P (hd s) \<Longrightarrow> dropWhile P s = s"
  by (cases s) auto

lemma dropWhile_rev_stays: "s \<noteq> [] \<Longrightarrow> \<not> P (last s) \<Longrightarrow> dropWhile P (rev s) = rev s"
  by (rule dropWhile_stays) (simp_all add: hd_rev)

lemma strip_by_unwrapped:
  assumes "s = [] \<or> (\<not> P (hd s) \<and> \<not> P (last s))"
  shows "strip_by P s = s"
proof (cases s)
  case Nil
  then show ?thesis by (simp add: strip_by_def lstrip_by_def)
next
  case (Cons x xs)
  with assms have h: "\<not> P x" and l: "\<not> P (last s)" by auto
  have "dropWhile P s = s" using h Cons by simp
  moreover have "dropWhile P (rev s) = rev s"
    using l Cons by (intro dropWhile_rev_stays) simp_all
  ultimately show ?thesis by (simp add: strip_by_def lstrip_by_def rstrip_by_def)
qed

lemma strip_by_wrapped:
  assumes "P q" and "body = [] \<or> (\<not> P (hd body) \<and> \<not> P (last body))"
  shows "strip_by P (q # body @ [q]) = body"
proof (cases body)
  case Nil
  with assms show ?thesis by (simp add: strip_by_def lstrip_by_def rstrip_by_def)
next
  case (Cons x xs)
  with assms have h: "\<not> P x" and l: "\<not> P (last body)" by auto
  have 1: "dropWhile P (q # body @ [q]) = body @ [q]"
    using assms(1) h Cons by simp
  have "dropWhile P (rev body) = rev body"
    using l Cons by (intro dropWhile_rev_stays) simp_all
  then have 2: "dropWhile P (rev (body @ [q])) = rev body"
    using assms(1) by simp
  show ?thesis unfolding strip_by_def lstrip_by_def rstrip_by_def 1 2 by simp
qed

section \<open>Properties of the configuration loader\<close>

lemma load_line_skip:
  assumes "strip line = [] \<or> startswith (strip line) [HASH] \<or> EQUALS \<notin> set line"
  shows "load_line env line = Inr env"
  using assms by (auto simp: load_line_def equals_in_strip)

lemma load_line_result:
  assumes "load_line env line = Inr env'"
  shows "env' = env \<or> (\<exists>k v. env k = None \<and> env' = env(k \<mapsto> v))"
  using assms unfolding load_line_def environ_setitem_def Let_def
  by (auto split: if_splits list.splits)

lemma load_line_keeps:
  assumes "load_line env line = Inr env'" and "env k \<noteq> None"
  shows "env' k = env k"
  using load_line_result [OF assms(1)] assms(2) by auto

lemma load_lines_keeps: "env k \<noteq> None \<Longrightarrow> snd (load_lines env ls) k = env k"
proof (induction ls arbitrary: env)
  case Nil
  show ?case by simp
next
  case (Cons l ls)
  show ?case
  proof (cases "load_line env l")
    case (Inl e)
    then show ?thesis by simp
  next
    case (Inr env')
    then have "env' k = env k" using Cons.prems by (rule load_line_keeps)
    with Cons.IH [of env'] Cons.prems Inr show ?thesis by simp
  qed
qed

lemma load_lines_append:
  "load_lines env (xs @ ys) =
     (case load_lines env xs of
        (Some e, env') \<Rightarrow> (Some e, env')
      | (None, env') \<Rightarrow> load_lines env' ys)"
  by (induction xs arbitrary: env) (auto split: sum.splits)

lemma load_lines_skip:
  assumes "\<And>env'. load_line env' line = Inr env'"
  shows "load_lines env (xs @ line # ys) = load_lines env (xs @ ys)"
  using assms by (simp add: load_lines_append split: prod.splits option.splits)

lemma load_line_entry:
  assumes line: "line = k @ EQUALS # v"
    and k: "EQUALS \<notin> set k" "strip k \<noteq> []"
    and hash: "\<not> startswith (strip line) [HASH]"
    and absent: "env (strip k) = None"
    and nul: "NUL \<notin> set line"
  shows "load_line env line =
           Inr (env(strip k \<mapsto> strip_chars [DQUOTE] (strip_chars [SQUOTE] (strip v))))"
proof -
  let ?raw = "dropWhile is_whitespace k @ EQUALS # rstrip_by is_whitespace v"
  have raw: "strip line = ?raw"
    unfolding line strip_def by (rule strip_by_append) simp
  have ne: "?raw \<noteq> []" by simp
  have eq: "EQUALS \<in> set ?raw" by simp
  have "EQUALS \<notin> set (dropWhile is_whitespace k)"
    using k(1) by (auto dest: set_dropWhileD)
  then have split: "split_once EQUALS ?raw = [dropWhile is_whitespace k, rstrip_by is_whitespace v]"
    by (rule split_once_at)
  have key: "strip (dropWhile is_whitespace k) = strip k"
    unfolding strip_def by (rule strip_by_lstrip)
  have val: "strip (rstrip_by is_whitespace v) = strip v"
    unfolding strip_def by (rule strip_by_rstrip)
  let ?val = "strip_chars [DQUOTE] (strip_chars [SQUOTE] (strip v))"
  have "set (strip k) \<subseteq> set k"
    unfolding strip_def by (rule set_strip_by)
  then have key_ok: "NUL \<notin> set (strip k)" "EQUALS \<notin> set (strip k)"
    using nul k(1) unfolding line by auto
  have "set ?val \<subseteq> set v"
    unfolding strip_chars_def strip_def
    using set_strip_by [of "\<lambda>c. c \<in> set [DQUOTE]" "strip_by (\<lambda>c. c \<in> set [SQUOTE]) (strip_by is_whitespace v)"]
      set_strip_by [of "\<lambda>c. c \<in> set [SQUOTE]" "strip_by is_whitespace v"]
      set_strip_by [of is_whitespace v]
    by blast
  then have val_ok: "NUL \<notin> set ?val"
    using nul unfolding line by auto
  have set: "environ_setitem env (strip k) ?val = Inr (env(strip k \<mapsto> ?val))"
    unfolding environ_setitem_def using key_ok val_ok k(2) by simp
  show ?thesis
    unfolding load_line_def Let_def
    using hash ne eq absent k(2) unfolding raw split
    by (simp add: key val set)
qed

subsection \<open>When the loader raises\<close>






section \<open>The claims about the configuration loader\<close>

text \<open>
  C1 (as the code has it). A line \<open>KEY=VALUE\<close> that sets an entry stores the trimmed
  value with every leading and trailing \<open>'\<close> removed and then every leading and
  trailing \<open>"\<close> removed. So a trimmed value wrapped in one pair of a quote character,
  whose inner text neither starts nor ends with a quote character, is stored as the inner
  text, and a trimmed value that neither starts nor ends with a quote character is stored
  unchanged.
\<close>

theorem load_line_strips_quotes:
  assumes "line = k @ EQUALS # v" and "EQUALS \<notin> set k" and "strip k \<noteq> []"
    and "\<not> startswith (strip line) [HASH]" and "env (strip k) = None" and "NUL \<notin> set line"
  shows "load_line env line =
           Inr (env(strip k \<mapsto> strip_chars [DQUOTE] (strip_chars [SQUOTE] (strip v))))
         \<and> (\<forall>q body. (q = SQUOTE \<or> q = DQUOTE) \<and> strip v = q # body @ [q]
                \<and> (body = [] \<or> (hd body \<notin> {SQUOTE, DQUOTE} \<and> last body \<notin> {SQUOTE, DQUOTE}))
              \<longrightarrow> load_line env line = Inr (env(strip k \<mapsto> body)))
         \<and> (strip v = [] \<or> (hd (strip v) \<notin> {SQUOTE, DQUOTE} \<and> last (strip v) \<notin> {SQUOTE, DQUOTE})
              \<longrightarrow> load_line env line = Inr (env(strip k \<mapsto> strip v)))"
proof -
  have stored: "load_line env line =
      Inr (env(strip k \<mapsto> strip_chars [DQUOTE] (strip_chars [SQUOTE] (strip v))))"
    using assms by (rule load_line_entry)
  have differ: "SQUOTE \<noteq> DQUOTE" by (simp add: SQUOTE_def DQUOTE_def)
  have wrapped: "strip_chars [DQUOTE] (strip_chars [SQUOTE] (q # body @ [q])) = body"
    if q: "q = SQUOTE \<or> q = DQUOTE"
      and body: "body = [] \<or> (hd body \<notin> {SQUOTE, DQUOTE} \<and> last body \<notin> {SQUOTE, DQUOTE})"
    for q body
  proof (cases "q = SQUOTE")
    case True
    have "strip_chars [SQUOTE] (q # body @ [q]) = body"
      unfolding strip_chars_def using True body by (intro strip_by_wrapped) auto
    moreover have "strip_chars [DQUOTE] body = body"
      unfolding strip_chars_def using body by (intro strip_by_unwrapped) auto
    ultimately show ?thesis by simp
  next
    case False
    with q have dq: "q = DQUOTE" by simp
    have "strip_chars [SQUOTE] (q # body @ [q]) = q # body @ [q]"
      unfolding strip_chars_def using dq differ by (intro strip_by_unwrapped) auto
    moreover have "strip_chars [DQUOTE] (q # body @ [q]) = body"
      unfolding strip_chars_def using dq body by (intro strip_by_wrapped) auto
    ultimately show ?thesis by simp
  qed
  have plain: "strip_chars [DQUOTE] (strip_chars [SQUOTE] s) = s"
    if "s = [] \<or> (hd s \<notin> {SQUOTE, DQUOTE} \<and> last s \<notin> {SQUOTE, DQUOTE})" for s
  proof -
    have "strip_chars [SQUOTE] s = s"
      unfolding strip_chars_def using that by (intro strip_by_unwrapped) auto
    moreover have "strip_chars [DQUOTE] s = s"
      unfolding strip_chars_def using that by (intro strip_by_unwrapped) auto
    ultimately show ?thesis by simp
  qed
  show ?thesis
    using stored wrapped plain by (metis (no_types, lifting))
qed

theorem load_line_strips_quotes_witness:
  "load_line Map.empty (lit ''NAME = '' @ [DQUOTE] @ lit ''it's'' @ [DQUOTE])
     = Inr [lit ''NAME'' \<mapsto> lit ''it's'']
   \<and> load_line Map.empty (lit ''NAME=it's'') = Inr [lit ''NAME'' \<mapsto> lit ''it's'']"
proof -
  let ?k = "lit ''NAME ''"
  let ?v = "lit '' '' @ [DQUOTE] @ lit ''it's'' @ [DQUOTE]"
  let ?line = "?k @ EQUALS # ?v"
  have k: "strip ?k = lit ''NAME''" by (simp add: str_eval)
  have v: "strip ?v = DQUOTE # lit ''it's'' @ [DQUOTE]" by (simp add: str_eval)
  have "load_line Map.empty ?line = Inr [strip ?k \<mapsto> lit ''it's'']"
    using load_line_strips_quotes [of ?line ?k ?v Map.empty] v
    by (simp add: str_eval)
  moreover have "?line = lit ''NAME = '' @ [DQUOTE] @ lit ''it's'' @ [DQUOTE]"
    by (simp add: str_eval)
  moreover
  let ?k2 = "lit ''NAME''"
  let ?v2 = "lit ''it's''"
  have "load_line Map.empty (?k2 @ EQUALS # ?v2) = Inr [strip ?k2 \<mapsto> strip ?v2]"
    using load_line_strips_quotes [of "?k2 @ EQUALS # ?v2" ?k2 ?v2 Map.empty]
    by (simp add: str_eval)
  moreover have "?k2 @ EQUALS # ?v2 = lit ''NAME=it's''" "strip ?k2 = lit ''NAME''" "strip ?v2 = lit ''it's''"
    by (simp_all add: str_eval)
  ultimately show ?thesis using k by (simp add: lit_def EQUALS_def DQUOTE_def)
qed

text \<open>
  C1 as stated fails. The value \<open>'x\<close> is not wrapped in a pair of quote characters, and
  its quote character is removed all the same; the value \<open>'"x"'\<close> is wrapped in one pair,
  and two pairs are removed.
\<close>

theorem load_line_quotes_counterexample:
  "load_line Map.empty (lit ''A='' @ [SQUOTE] @ lit ''x'') = Inr [lit ''A'' \<mapsto> lit ''x'']
   \<and> \<not> wrapped_in_quotes (strip ([SQUOTE] @ lit ''x''))
   \<and> spec_unquote (strip ([SQUOTE] @ lit ''x'')) = [SQUOTE] @ lit ''x''
   \<and> [SQUOTE] @ lit ''x'' \<noteq> lit ''x''
   \<and> load_line Map.empty (lit ''A='' @ [SQUOTE, DQUOTE] @ lit ''x'' @ [DQUOTE, SQUOTE])
       = Inr [lit ''A'' \<mapsto> lit ''x'']
   \<and> wrapped_in_quotes (strip ([SQUOTE, DQUOTE] @ lit ''x'' @ [DQUOTE, SQUOTE]))
   \<and> spec_unquote (strip ([SQUOTE, DQUOTE] @ lit ''x'' @ [DQUOTE, SQUOTE]))
       = [DQUOTE] @ lit ''x'' @ [DQUOTE]
   \<and> [DQUOTE] @ lit ''x'' @ [DQUOTE] \<noteq> lit ''x''"
  by (simp add: str_eval load_line_def environ_setitem_def wrapped_in_quotes_def spec_unquote_def)

text \<open>
  C2. A key that is in the environment before \<open>load_dotenv\<close> runs has the same value
  afterwards, whatever the file holds and whether the loader returns or raises: the
  loader sets absent keys only.
\<close>

theorem load_dotenv_keeps_existing:
  "env k \<noteq> None \<Longrightarrow> snd (load_dotenv file env) k = env k"
  unfolding load_dotenv_def
  by (auto split: option.splits sum.splits simp: load_lines_keeps)

theorem load_dotenv_keeps_existing_witness:
  "[lit ''A'' \<mapsto> lit ''old''] (lit ''A'') \<noteq> None
   \<and> snd (load_dotenv (Some (Inr (lit ''A=new\<newline>B=2''))) [lit ''A'' \<mapsto> lit ''old'']) (lit ''A'')
       = Some (lit ''old'')
   \<and> snd (load_dotenv (Some (Inr (lit ''A=new\<newline>B=2''))) [lit ''A'' \<mapsto> lit ''old'']) (lit ''B'')
       = Some (lit ''2'')"
proof -
  have lines: "splitlines (lit ''A=new\<newline>B=2'') = [lit ''A=new'', lit ''B=2'']"
    by (simp add: splitlines.simps lit_def is_linebreak_def)
  have "snd (load_dotenv (Some (Inr (lit ''A=new\<newline>B=2''))) [lit ''A'' \<mapsto> lit ''old'']) (lit ''B'')
       = Some (lit ''2'')"
    unfolding load_dotenv_def by (simp add: lines) (simp add: str_eval load_line_def environ_setitem_def)
  then show ?thesis
    using load_dotenv_keeps_existing [of "[lit ''A'' \<mapsto> lit ''old'']" "lit ''A''"
        "Some (Inr (lit ''A=new\<newline>B=2''))"]
    by simp
qed

text \<open>
  C8. A line that is blank after trimming, or starts with \<open>#\<close> after trimming, or holds
  no \<open>=\<close> leaves the environment as it is, and the loader's result is the one it has
  with the line taken out of the file.
\<close>

theorem skipped_line_contributes_nothing:
  assumes "strip line = [] \<or> startswith (strip line) [HASH] \<or> EQUALS \<notin> set line"
  shows "load_line env line = Inr env
         \<and> load_lines env (before @ line # after) = load_lines env (before @ after)
         \<and> (splitlines text = before @ line # after
              \<longrightarrow> load_dotenv (Some (Inr text)) env = load_lines env (before @ after))"
proof -
  have skip: "load_line env' line = Inr env'" for env'
    using assms by (rule load_line_skip)
  then have "load_lines env (before @ line # after) = load_lines env (before @ after)"
    by (rule load_lines_skip)
  with skip show ?thesis by (simp add: load_dotenv_def)
qed

theorem skipped_line_contributes_nothing_witness:
  "startswith (strip (lit ''  # A=1'')) [HASH]
   \<and> load_line Map.empty (lit ''  # A=1'') = Inr Map.empty
   \<and> splitlines (lit ''B=2\<newline>  # A=1\<newline>C=3'') = [lit ''B=2''] @ lit ''  # A=1'' # [lit ''C=3'']
   \<and> load_dotenv (Some (Inr (lit ''B=2\<newline>  # A=1\<newline>C=3''))) Map.empty
       = load_lines Map.empty ([lit ''B=2''] @ [lit ''C=3''])
   \<and> strip (lit '' \<newline>'') = []
   \<and> load_line Map.empty (lit '' \<newline>'') = Inr Map.empty
   \<and> EQUALS \<notin> set (lit ''A 1'')
   \<and> load_line Map.empty (lit ''A 1'') = Inr Map.empty"
proof -
  have 1: "startswith (strip (lit ''  # A=1'')) [HASH]" by (simp add: str_eval)
  have 2: "splitlines (lit ''B=2\<newline>  # A=1\<newline>C=3'') = [lit ''B=2''] @ lit ''  # A=1'' # [lit ''C=3'']"
    by (simp add: splitlines.simps lit_def is_linebreak_def)
  have 3: "strip (lit '' \<newline>'') = []" by (simp add: str_eval)
  have 4: "EQUALS \<notin> set (lit ''A 1'')" by (simp add: str_eval)
  show ?thesis
    using 1 2 3 4
      skipped_line_contributes_nothing [of "lit ''  # A=1''" Map.empty "[lit ''B=2'']" "[lit ''C=3'']"
        "lit ''B=2\<newline>  # A=1\<newline>C=3''"]
      skipped_line_contributes_nothing [of "lit '' \<newline>''" Map.empty "[]" "[]" "[]"]
      skipped_line_contributes_nothing [of "lit ''A 1''" Map.empty "[]" "[]" "[]"]
    by simp
qed

section \<open>Properties of the traces\<close>

lemma printed_append: "printed (a @ b) = printed a @ printed b"
  by (induction a rule: printed.induct) auto

lemma executes_append: "executes (a @ b) = executes a @ executes b"
  by (induction a rule: executes.induct) auto

lemma executed_ok_append: "executed_ok (a @ b) = executed_ok a @ executed_ok b"
  by (induction a rule: executed_ok.induct) auto

lemma connection_attempts_append:
  "connection_attempts (a @ b) = connection_attempts a @ connection_attempts b"
  by (induction a rule: connection_attempts.induct) auto

lemma commits_append: "commits (a @ b) = commits a + commits b"
  by (simp add: commits_def)

lemma commits_Cons: "commits (e # t) = (if e = Call Commit None then 1 else 0) + commits t"
  by (simp add: commits_def)

lemma commits_Nil: "commits [] = 0"
  by (simp add: commits_def)

lemma printed_mem: "s \<in> set (printed t) \<longleftrightarrow> Print s \<in> set t"
  by (induction t rule: printed.induct) auto

lemma connection_attempts_mem: "u \<in> set (connection_attempts t) \<longleftrightarrow> (\<exists>r. Call (Connect u) r \<in> set t)"
  by (induction t rule: connection_attempts.induct) auto

lemma commits_zero: "commits t = 0 \<longleftrightarrow> Call Commit None \<notin> set t"
  unfolding commits_def by (induction t) auto

subsection \<open>The loop over the files\<close>

lemma run_files_Cons:
  "run_files drv cur (p # ps) =
     (case read_text p of
        Inl e \<Rightarrow> ([Call (Read_text (path_name p)) (Some e)], Inl e)
      | Inr sql \<Rightarrow>
          (case execute drv cur sql of
             Inl e \<Rightarrow>
               ([Call (Read_text (path_name p)) None, Print (running (path_name p)),
                 Call (Execute sql) (Some e)], Inl e)
           | Inr cur' \<Rightarrow>
               (Call (Read_text (path_name p)) None # Print (running (path_name p))
                  # Call (Execute sql) None # fst (run_files drv cur' ps),
                snd (run_files drv cur' ps))))"
  by (simp split: sum.splits prod.splits)

text \<open>Every event of the loop is the read of a file, its progress line or an execute.\<close>

lemma run_files_events:
  assumes "ev \<in> set (fst (run_files drv cur fs))"
  shows "(\<exists>p \<in> set fs. ev = Print (running (path_name p)) \<or> (\<exists>x. ev = Call (Read_text (path_name p)) x))
         \<or> (\<exists>q x. ev = Call (Execute q) x)"
  using assms
proof (induction fs arbitrary: cur)
  case Nil
  then show ?case by simp
next
  case (Cons p ps)
  show ?case
  proof (cases "read_text p")
    case (Inl e)
    with Cons.prems show ?thesis by auto
  next
    case (Inr sql)
    show ?thesis
    proof (cases "execute drv cur sql")
      case (Inl e)
      with Inr Cons.prems show ?thesis by auto
    next
      case exec: (Inr cur')
      obtain t r where rest: "run_files drv cur' ps = (t, r)" by (cases "run_files drv cur' ps")
      from Cons.prems Inr exec rest
      consider "ev = Call (Read_text (path_name p)) None" | "ev = Print (running (path_name p))"
        | "ev = Call (Execute sql) None" | "ev \<in> set t"
        by auto
      then show ?thesis
      proof cases
        case 4
        with Cons.IH [of cur'] rest show ?thesis by auto
      qed auto
    qed
  qed
qed

text \<open>A call of the loop that raised ends the loop with that exception.\<close>

lemma run_files_raised:
  "Call c (Some e) \<in> set (fst (run_files drv cur fs)) \<Longrightarrow> snd (run_files drv cur fs) = Inl e"
  by (induction fs arbitrary: cur)
    (auto simp: run_files_Cons simp del: run_files.simps(2) split: sum.splits)

text \<open>The loop executes the texts of the first files of its list, one after the other,
  and prints the progress line of each of them before.\<close>

lemma run_files_executes:
  "map Inr (executes (fst (run_files drv cur fs)))
     = map read_text (take (length (executes (fst (run_files drv cur fs)))) fs)"
  by (induction fs arbitrary: cur)
    (auto simp: run_files_Cons simp del: run_files.simps(2) split: sum.splits)

lemma run_files_printed:
  "printed (fst (run_files drv cur fs))
     = map (\<lambda>p. running (path_name p)) (take (length (executes (fst (run_files drv cur fs)))) fs)"
  by (induction fs arbitrary: cur)
    (auto simp: run_files_Cons simp del: run_files.simps(2) split: sum.splits)

lemma run_files_executes_le: "length (executes (fst (run_files drv cur fs))) \<le> length fs"
  by (induction fs arbitrary: cur)
    (auto simp: run_files_Cons simp del: run_files.simps(2) split: sum.splits)


lemma run_files_executed_ok_le: "length (executed_ok (fst (run_files drv cur fs))) \<le> length fs"
  by (induction fs arbitrary: cur)
    (auto simp: run_files_Cons simp del: run_files.simps(2) split: sum.splits)


lemma run_files_read_names:
  "Call (Read_text n) x \<in> set (fst (run_files drv cur fs)) \<Longrightarrow> n \<in> path_name ` set fs"
  by (induction fs arbitrary: cur)
    (auto simp: run_files_Cons simp del: run_files.simps(2) split: sum.splits)

lemma running_inject: "running n = running m \<longleftrightarrow> n = m"
  by (simp add: running_def)

lemma run_files_failed_read:
  assumes "Call (Read_text n) (Some e) \<in> set (fst (run_files drv cur fs))"
  shows "\<exists>t'. fst (run_files drv cur fs) = t' @ [Call (Read_text n) (Some e)]
            \<and> (distinct (map path_name fs) \<longrightarrow> Print (running n) \<notin> set t')"
  using assms
proof (induction fs arbitrary: cur)
  case Nil
  then show ?case by simp
next
  case (Cons p ps)
  show ?case
  proof (cases "read_text p")
    case (Inl e')
    with Cons.prems show ?thesis by auto
  next
    case (Inr sql)
    show ?thesis
    proof (cases "execute drv cur sql")
      case (Inl e')
      with Inr Cons.prems show ?thesis by auto
    next
      case exec: (Inr cur')
      obtain t r where rest: "run_files drv cur' ps = (t, r)" by (cases "run_files drv cur' ps")
      let ?head = "[Call (Read_text (path_name p)) None, Print (running (path_name p)),
                    Call (Execute sql) None]"
      have whole: "fst (run_files drv cur (p # ps)) = ?head @ t"
        using Inr exec rest by simp
      with Cons.prems have in_t: "Call (Read_text n) (Some e) \<in> set (fst (run_files drv cur' ps))"
        using rest by auto
      from Cons.IH [OF this] rest obtain t' where
        t': "t = t' @ [Call (Read_text n) (Some e)]"
        and fresh: "distinct (map path_name ps) \<longrightarrow> Print (running n) \<notin> set t'"
        by auto
      have "n \<in> path_name ` set ps" using in_t by (rule run_files_read_names)
      moreover have "distinct (map path_name (p # ps)) \<longrightarrow> path_name p \<notin> path_name ` set ps"
        by simp
      ultimately have "distinct (map path_name (p # ps)) \<longrightarrow> n \<noteq> path_name p" by blast
      with fresh have "distinct (map path_name (p # ps)) \<longrightarrow> Print (running n) \<notin> set (?head @ t')"
        by (auto simp: running_inject)
      moreover have "fst (run_files drv cur (p # ps)) = (?head @ t') @ [Call (Read_text n) (Some e)]"
        using whole t' by simp
      ultimately show ?thesis by blast
    qed
  qed
qed

subsection \<open>The body of the try statement\<close>

text \<open>The five ways through the body: the step that raised, or none.\<close>

lemma apply_migrations_cases:
  obtains
    (connect_raised) e where
      "apply_migrations drv url fs = ([Call (Connect url) (Some e)], Inl e)"
  | (cursor_raised) e where
      "apply_migrations drv url fs
         = ([Call (Connect url) None, Call Cursor (Some e), Exit_connection], Inl e)"
  | (file_raised) cur t e where
      "run_files drv cur fs = (t, Inl e)"
      "apply_migrations drv url fs
         = (Call (Connect url) None # Call Cursor None # t @ [Exit_cursor, Exit_connection], Inl e)"
  | (commit_raised) cur t cur' e where
      "run_files drv cur fs = (t, Inr cur')"
      "apply_migrations drv url fs
         = (Call (Connect url) None # Call Cursor None # t
              @ [Exit_cursor, Call Commit (Some e), Exit_connection], Inl e)"
  | (committed) cur t cur' conn' where
      "run_files drv cur fs = (t, Inr cur')"
      "apply_migrations drv url fs
         = (Call (Connect url) None # Call Cursor None # t
              @ [Exit_cursor, Call Commit None, Exit_connection], Inr conn')"
proof (cases "connect drv url")
  case (Inl e)
  then show ?thesis using connect_raised by (simp add: apply_migrations_def)
next
  case conn: (Inr conn)
  show ?thesis
  proof (cases "cursor drv conn")
    case (Inl e)
    then show ?thesis
      using conn cursor_raised by (simp add: apply_migrations_def in_connection_def)
  next
    case cur: (Inr cur)
    obtain t r where loop: "run_files drv cur fs = (t, r)" by (cases "run_files drv cur fs")
    show ?thesis
    proof (cases r)
      case (Inl e)
      then show ?thesis
        using conn cur loop file_raised by (simp add: apply_migrations_def in_connection_def)
    next
      case r: (Inr cur')
      show ?thesis
      proof (cases "commit drv cur'")
        case (Inl e)
        then show ?thesis
          using conn cur loop r commit_raised
          by (simp add: apply_migrations_def in_connection_def)
      next
        case (Inr conn')
        then show ?thesis
          using conn cur loop r committed
          by (simp add: apply_migrations_def in_connection_def)
      qed
    qed
  qed
qed

lemma run_files_no_setup_events:
  "Call Commit x \<notin> set (fst (run_files drv cur fs))"
  "Call (Connect u) x \<notin> set (fst (run_files drv cur fs))"
  "Call Cursor x \<notin> set (fst (run_files drv cur fs))"
  "Exit_cursor \<notin> set (fst (run_files drv cur fs))"
  "Exit_connection \<notin> set (fst (run_files drv cur fs))"
  using run_files_events [of _ drv cur fs] by blast+

lemma run_files_commits: "commits (fst (run_files drv cur fs)) = 0"
  by (simp add: commits_zero run_files_no_setup_events)


lemmas trace_append =
  printed_append executes_append executed_ok_append connection_attempts_append commits_append

lemma apply_migrations_raised:
  assumes "apply_migrations drv url fs = (t, r)" and "Call c (Some e) \<in> set t"
  shows "r = Inl e \<and> commits t = 0"
proof (cases rule: apply_migrations_cases [where drv = drv and url = url and fs = fs])
  case (file_raised cur t' e')
  have "Call c (Some e) \<in> set t'" using assms file_raised(2) by auto
  then have "snd (run_files drv cur fs) = Inl e"
    using file_raised(1) run_files_raised [of c e drv cur fs] by simp
  moreover have "commits t' = 0"
    using run_files_commits [of drv cur fs] file_raised(1) by simp
  ultimately show ?thesis
    using assms file_raised by (auto simp: trace_append commits_Cons commits_Nil)
next
  case (commit_raised cur t' cur' e')
  have "commits t' = 0"
    using run_files_commits [of drv cur fs] commit_raised(1) by simp
  moreover have "Call c (Some e) \<notin> set t'"
    using run_files_raised [of c e drv cur fs] commit_raised(1) by auto
  ultimately show ?thesis
    using assms commit_raised by (auto simp: trace_append commits_Cons commits_Nil)
next
  case (committed cur t' cur' conn')
  have "Call c (Some e) \<notin> set t'"
    using run_files_raised [of c e drv cur fs] committed(1) by auto
  then show ?thesis using assms committed by auto
qed (use assms in \<open>auto simp: commits_Cons commits_Nil\<close>)

lemma apply_migrations_executes:
  assumes "apply_migrations drv url fs = (t, r)"
  shows "map Inr (executes t) = map read_text (take (length (executes t)) fs)"
    and "printed t = map (\<lambda>p. running (path_name p)) (take (length (executes t)) fs)"
proof -
  have "map Inr (executes t) = map read_text (take (length (executes t)) fs)
        \<and> printed t = map (\<lambda>p. running (path_name p)) (take (length (executes t)) fs)"
  proof (cases rule: apply_migrations_cases [where drv = drv and url = url and fs = fs])
    case (file_raised cur t' e')
    then show ?thesis
      using assms run_files_executes [of drv cur fs] run_files_printed [of drv cur fs]
      by (auto simp: trace_append)
  next
    case (commit_raised cur t' cur' e')
    then show ?thesis
      using assms run_files_executes [of drv cur fs] run_files_printed [of drv cur fs]
      by (auto simp: trace_append)
  next
    case (committed cur t' cur' conn')
    then show ?thesis
      using assms run_files_executes [of drv cur fs] run_files_printed [of drv cur fs]
      by (auto simp: trace_append)
  qed (use assms in auto)
  then show "map Inr (executes t) = map read_text (take (length (executes t)) fs)"
    and "printed t = map (\<lambda>p. running (path_name p)) (take (length (executes t)) fs)"
    by simp_all
qed



lemma apply_migrations_failed_read:
  assumes "apply_migrations drv url fs = (t, r)"
    and "Call (Read_text n) (Some e) \<in> set t"
  shows "\<exists>t'. t = t' @ [Call (Read_text n) (Some e), Exit_cursor, Exit_connection]
           \<and> (distinct (map path_name fs) \<longrightarrow> Print (running n) \<notin> set t')"
proof (cases rule: apply_migrations_cases [where drv = drv and url = url and fs = fs])
  case (file_raised cur t0 e')
  then have "Call (Read_text n) (Some e) \<in> set (fst (run_files drv cur fs))"
    using assms by auto
  from run_files_failed_read [OF this] file_raised(1) obtain t1 where
    t1: "t0 = t1 @ [Call (Read_text n) (Some e)]"
    and fresh: "distinct (map path_name fs) \<longrightarrow> Print (running n) \<notin> set t1"
    by auto
  let ?t' = "Call (Connect url) None # Call Cursor None # t1"
  have "t = ?t' @ [Call (Read_text n) (Some e), Exit_cursor, Exit_connection]"
    using assms(1) file_raised(2) t1 by simp
  moreover have "distinct (map path_name fs) \<longrightarrow> Print (running n) \<notin> set ?t'"
    using fresh by simp
  ultimately show ?thesis by blast
next
  case (commit_raised cur t' cur' e')
  have "Call (Read_text n) (Some e) \<notin> set t'"
    using run_files_raised [of "Read_text n" e drv cur fs] commit_raised(1) by auto
  then show ?thesis using assms commit_raised by auto
next
  case (committed cur t' cur' conn')
  have "Call (Read_text n) (Some e) \<notin> set t'"
    using run_files_raised [of "Read_text n" e drv cur fs] committed(1) by auto
  then show ?thesis using assms committed by auto
qed (use assms in auto)

subsection \<open>The runs of main\<close>

lemma sort_key_Nil_iff: "sort_key f xs = [] \<longleftrightarrow> xs = []"
  by (metis length_0_conv length_sort)

text \<open>The six ways through \<open>main\<close>.\<close>

lemma main_cases:
  obtains
    (loader_raised) e env' where
      "load_dotenv (dotenv_path w) env = (Some e, env')"
      "main w env = ([], Inl e)"
  | (no_url) env' where
      "load_dotenv (dotenv_path w) env = (None, env')"
      "env' DATABASE_URL = None \<or> env' DATABASE_URL = Some []"
      "main w env = ([Print (lit ''DATABASE_URL is not set.'')], Inr 1)"
  | (no_directory) env' url where
      "load_dotenv (dotenv_path w) env = (None, env')"
      "env' DATABASE_URL = Some url" "url \<noteq> []" "glob_sql w = None"
      "main w env
         = ([Print (lit ''migrations directory not found: '' @ migrations_dir w)], Inr 1)"
  | (no_files) env' url where
      "load_dotenv (dotenv_path w) env = (None, env')"
      "env' DATABASE_URL = Some url" "url \<noteq> []" "glob_sql w = Some []"
      "main w env = ([Print (lit ''No migration files found.'')], Inr 1)"
  | (failed) env' url ps t msg where
      "load_dotenv (dotenv_path w) env = (None, env')"
      "env' DATABASE_URL = Some url" "url \<noteq> []" "glob_sql w = Some ps" "ps \<noteq> []"
      "apply_migrations (psycopg w) url (sort_key path_name ps) = (t, Inl (Exception msg))"
      "main w env = (t @ [Print (migration_failed msg)], Inr 1)"
  | (applied) env' url ps t conn where
      "load_dotenv (dotenv_path w) env = (None, env')"
      "env' DATABASE_URL = Some url" "url \<noteq> []" "glob_sql w = Some ps" "ps \<noteq> []"
      "apply_migrations (psycopg w) url (sort_key path_name ps) = (t, Inr conn)"
      "main w env = (t @ [Print migrations_applied], Inr 0)"
proof -
  obtain raised env' where load: "load_dotenv (dotenv_path w) env = (raised, env')"
    by (cases "load_dotenv (dotenv_path w) env")
  show ?thesis
  proof (cases raised)
    case (Some e)
    with load show ?thesis using loader_raised by (simp add: main_def)
  next
    case None
    note load = load [unfolded None]
    show ?thesis
    proof (cases "env' DATABASE_URL")
      case None
      with load show ?thesis using no_url by (simp add: main_def)
    next
      case url: (Some url)
      show ?thesis
      proof (cases "url = []")
        case True
        with load url show ?thesis using no_url by (simp add: main_def)
      next
        case ne: False
        show ?thesis
        proof (cases "glob_sql w")
          case None
          with load url ne show ?thesis using no_directory by (simp add: main_def)
        next
          case glob: (Some ps)
          show ?thesis
          proof (cases "ps = []")
            case True
            with load url ne glob show ?thesis using no_files by (simp add: main_def)
          next
            case files: False
            obtain t r where run:
              "apply_migrations (psycopg w) url (sort_key path_name ps) = (t, r)"
              by (cases "apply_migrations (psycopg w) url (sort_key path_name ps)")
            show ?thesis
            proof (cases r)
              case (Inl e)
              obtain msg where "e = Exception msg" by (cases e)
              with Inl load url ne glob files run show ?thesis
                using failed by (simp add: main_def sort_key_Nil_iff)
            next
              case (Inr conn)
              with load url ne glob files run show ?thesis
                using applied by (simp add: main_def sort_key_Nil_iff)
            qed
          qed
        qed
      qed
    qed
  qed
qed

subsection \<open>The lines the runner prints\<close>

lemma running_not_applied: "running n \<noteq> migrations_applied"
  by (simp add: running_def migrations_applied_def lit_def)

lemma failed_not_applied: "migration_failed msg \<noteq> migrations_applied"
  by (simp add: migration_failed_def migrations_applied_def lit_def)

lemma running_not_failed: "running n \<noteq> migration_failed msg"
  by (simp add: running_def migration_failed_def lit_def)

lemma apply_migrations_not_applied:
  assumes "apply_migrations drv url fs = (t, r)"
  shows "migrations_applied \<notin> set (printed t)"
    and "count_list (printed t) migrations_applied = 0"
proof -
  have "printed t = map (\<lambda>p. running (path_name p)) (take (length (executes t)) fs)"
    using assms by (rule apply_migrations_executes)
  then show "migrations_applied \<notin> set (printed t)"
    using running_not_applied [symmetric] by auto
  then show "count_list (printed t) migrations_applied = 0"
    by (simp add: count_list_0_iff)
qed

subsection \<open>Sorting the paths by name\<close>

lemma mset_names_sorted: "mset (map f (sort_key f ps)) = mset (map f ps)"
  by simp


lemma distinct_names_sorted: "distinct (map f (sort_key f ps)) \<longleftrightarrow> distinct (map f ps)"
  using mset_names_sorted [of f ps] by (metis mset_eq_imp_distinct_iff)



section \<open>The claims about the runner\<close>

text \<open>
  C6. When \<open>DATABASE_URL\<close> is unset or empty after the loader has run, the runner prints
  \<open>DATABASE_URL is not set.\<close> and nothing else, makes no attempt to connect, and ends
  with status 1.
\<close>

theorem no_database_url:
  assumes "load_dotenv (dotenv_path w) env = (None, env')"
    and "env' DATABASE_URL = None \<or> env' DATABASE_URL = Some []"
  shows "main w env = ([Print (lit ''DATABASE_URL is not set.'')], Inr 1)
         \<and> connection_attempts (fst (main w env)) = []
         \<and> exit_status (snd (main w env)) = 1"
proof -
  have "main w env = ([Print (lit ''DATABASE_URL is not set.'')], Inr 1)"
    using assms by (auto simp: main_def)
  then show ?thesis by (simp add: exit_status_def)
qed

theorem no_database_url_witness:
  "load_dotenv (dotenv_path (example_world None (Some [sql_file ''001.sql'' ''select 1'']) example_driver))
      Map.empty = (None, Map.empty)
   \<and> Map.empty DATABASE_URL = (None :: str option)
   \<and> main (example_world None (Some [sql_file ''001.sql'' ''select 1'']) example_driver) Map.empty
       = ([Print (lit ''DATABASE_URL is not set.'')], Inr 1)
   \<and> load_dotenv (dotenv_path (example_world (Some (Inr (lit ''DATABASE_URL=\<newline>''))) (Some []) example_driver))
      Map.empty = (None, [DATABASE_URL \<mapsto> []])
   \<and> main (example_world (Some (Inr (lit ''DATABASE_URL=\<newline>''))) (Some []) example_driver) Map.empty
       = ([Print (lit ''DATABASE_URL is not set.'')], Inr 1)"
proof -
  let ?w = "example_world None (Some [sql_file ''001.sql'' ''select 1'']) example_driver"
  let ?v = "example_world (Some (Inr (lit ''DATABASE_URL=\<newline>''))) (Some []) example_driver"
  have 1: "load_dotenv (dotenv_path ?w) Map.empty = (None, Map.empty)"
    by (simp add: load_dotenv_def example_world_def)
  have 2: "load_dotenv (dotenv_path ?v) Map.empty = (None, [DATABASE_URL \<mapsto> []])"
    by (simp add: run_eval str_eval)
  show ?thesis
    using 1 2 no_database_url [of ?w Map.empty Map.empty]
      no_database_url [of ?v Map.empty "[DATABASE_URL \<mapsto> []]"]
    by simp
qed

text \<open>
  C7 (as the code has it). When the migrations directory exists and holds no file
  matching \<open>*.sql\<close>, the run ends with status 1 and without an attempt to connect; and
  when \<open>DATABASE_URL\<close> is set to a non-empty value after the loader has run, the runner
  prints \<open>No migration files found.\<close> and nothing else.
\<close>

theorem no_migration_files:
  assumes "glob_sql w = Some []"
  shows "exit_status (snd (main w env)) = 1
         \<and> connection_attempts (fst (main w env)) = []
         \<and> (\<forall>env' url. load_dotenv (dotenv_path w) env = (None, env')
                \<and> env' DATABASE_URL = Some url \<and> url \<noteq> []
              \<longrightarrow> main w env = ([Print (lit ''No migration files found.'')], Inr 1))"
proof (cases rule: main_cases [where w = w and env = env])
  case (loader_raised e env')
  then show ?thesis by (simp add: exit_status_def)
next
  case (no_url env')
  then show ?thesis by (auto simp: exit_status_def)
next
  case (no_directory env' url)
  with assms show ?thesis by simp
next
  case (no_files env' url)
  then show ?thesis by (simp add: exit_status_def)
next
  case (failed env' url ps t msg)
  with assms show ?thesis by simp
next
  case (applied env' url ps t conn)
  with assms show ?thesis by simp
qed

theorem no_migration_files_witness:
  "glob_sql (example_world None (Some []) example_driver) = Some []
   \<and> load_dotenv (dotenv_path (example_world None (Some []) example_driver))
       [DATABASE_URL \<mapsto> lit ''postgres://db''] = (None, [DATABASE_URL \<mapsto> lit ''postgres://db''])
   \<and> main (example_world None (Some []) example_driver) [DATABASE_URL \<mapsto> lit ''postgres://db'']
       = ([Print (lit ''No migration files found.'')], Inr 1)
   \<and> connection_attempts
        (fst (main (example_world None (Some []) example_driver) [DATABASE_URL \<mapsto> lit ''postgres://db'']))
       = []"
proof -
  let ?w = "example_world None (Some []) example_driver"
  let ?env = "[DATABASE_URL \<mapsto> lit ''postgres://db'']"
  have 1: "glob_sql ?w = Some []" by (simp add: example_world_def)
  have 2: "load_dotenv (dotenv_path ?w) ?env = (None, ?env)"
    by (simp add: load_dotenv_def example_world_def)
  have 3: "lit ''postgres://db'' \<noteq> []" by (simp add: lit_def)
  show ?thesis
    using 1 2 3 no_migration_files [of ?w ?env] by simp
qed

text \<open>
  C7 as stated fails: with an empty migrations directory and no \<open>DATABASE_URL\<close> the
  runner prints \<open>DATABASE_URL is not set.\<close>, not \<open>No migration files found.\<close>
\<close>

theorem no_migration_files_counterexample:
  "glob_sql (example_world None (Some []) example_driver) = Some []
   \<and> main (example_world None (Some []) example_driver) Map.empty
       = ([Print (lit ''DATABASE_URL is not set.'')], Inr 1)
   \<and> lit ''No migration files found.''
       \<notin> set (printed (fst (main (example_world None (Some []) example_driver) Map.empty)))"
  by (simp add: run_eval lit_def)





text \<open>
  C4. When a call made inside the \<open>try\<close> statement (connect, cursor, reading a file,
  execute, commit) raises, \<open>main\<close> returns 1 (the exception does not leave it), the last
  event is the line \<open>Migration failed: \<close> followed by the message of that exception,
  \<open>Migrations applied.\<close> is not printed, and no commit has returned.
\<close>

theorem failure_is_reported:
  assumes "main w env = (t, r)" and "Call c (Some (Exception msg)) \<in> set t"
  shows "r = Inr 1 \<and> exit_status r = 1
         \<and> (\<exists>t'. t = t' @ [Print (migration_failed msg)])
         \<and> migrations_applied \<notin> set (printed t)
         \<and> commits t = 0"
proof (cases rule: main_cases [where w = w and env = env])
  case (failed env' url ps t0 msg')
  from assms failed(7) have t: "t = t0 @ [Print (migration_failed msg')]" and r: "r = Inr 1"
    by simp_all
  with assms(2) have "Call c (Some (Exception msg)) \<in> set t0" by simp
  from apply_migrations_raised [OF failed(6) this]
  have msg: "msg' = msg" and none: "commits t0 = 0" by simp_all
  have "migrations_applied \<notin> set (printed t0)"
    using failed(6) by (rule apply_migrations_not_applied)
  then have "migrations_applied \<notin> set (printed t)"
    using failed_not_applied [of msg'] by (auto simp: t trace_append)
  moreover have "commits t = 0"
    using none by (simp add: t trace_append commits_Cons commits_Nil)
  ultimately show ?thesis
    using t r msg by (simp add: exit_status_def)
next
  case (applied env' url ps t0 conn)
  from assms applied(7) have "Call c (Some (Exception msg)) \<in> set t0" by auto
  from apply_migrations_raised [OF applied(6) this] show ?thesis by simp
qed (use assms in auto)

theorem failure_is_reported_witness:
  "main (example_world None (Some bad_second) example_driver) database_env =
     ([Call (Connect (lit ''postgres://db'')) None, Call Cursor None,
       Call (Read_text (lit ''001_init.sql'')) None, Print (lit ''Running 001_init.sql...''),
       Call (Execute (lit ''create table'')) None,
       Call (Read_text (lit ''002_add_index.sql'')) None,
       Print (lit ''Running 002_add_index.sql...''),
       Call (Execute (lit ''bad'')) (Some (Exception (lit ''syntax error''))),
       Exit_cursor, Exit_connection, Print (lit ''Migration failed: syntax error'')],
      Inr 1)
   \<and> migration_failed (lit ''syntax error'') = lit ''Migration failed: syntax error''
   \<and> migrations_applied
        \<notin> set (printed (fst (main (example_world None (Some bad_second) example_driver) database_env)))
   \<and> commits (fst (main (example_world None (Some bad_second) example_driver) database_env)) = 0"
proof -
  let ?w = "example_world None (Some bad_second) example_driver"
  let ?t = "[Call (Connect (lit ''postgres://db'')) None, Call Cursor None,
       Call (Read_text (lit ''001_init.sql'')) None, Print (lit ''Running 001_init.sql...''),
       Call (Execute (lit ''create table'')) None,
       Call (Read_text (lit ''002_add_index.sql'')) None,
       Print (lit ''Running 002_add_index.sql...''),
       Call (Execute (lit ''bad'')) (Some (Exception (lit ''syntax error''))),
       Exit_cursor, Exit_connection, Print (lit ''Migration failed: syntax error'')]"
  have run: "main ?w database_env = (?t, Inr 1)"
    by (simp add: example_eval)
  have line: "migration_failed (lit ''syntax error'') = lit ''Migration failed: syntax error''"
    by (simp add: migration_failed_def lit_def)
  have "Call (Execute (lit ''bad'')) (Some (Exception (lit ''syntax error''))) \<in> set ?t"
    by simp
  from failure_is_reported [OF run this] run line show ?thesis
    by (simp add: migrations_applied_def running_def migration_failed_def lit_def commits_def)
qed




text \<open>
  C10. When reading the text of a migration file raises, the events that follow are
  the two scope exits and the line \<open>Migration failed: \<close> with the message of that
  exception: the progress line of the file is not printed (nowhere in the run, the file
  names being distinct), \<open>Migrations applied.\<close> is not printed, and \<open>main\<close> returns 1.
\<close>

theorem failed_read_is_reported:
  assumes "main w env = (t, r)" and "glob_sql w = Some ps"
    and "Call (Read_text n) (Some (Exception msg)) \<in> set t"
  shows "r = Inr 1 \<and> exit_status r = 1
         \<and> (\<exists>t'. t = t' @ [Call (Read_text n) (Some (Exception msg)), Exit_cursor,
                            Exit_connection, Print (migration_failed msg)])
         \<and> (distinct (map path_name ps) \<longrightarrow> Print (running n) \<notin> set t)
         \<and> migrations_applied \<notin> set (printed t)"
proof (cases rule: main_cases [where w = w and env = env])
  case (failed env' url ps' t0 msg')
  from assms failed(4,7) have t: "t = t0 @ [Print (migration_failed msg')]" and r: "r = Inr 1"
    and ps: "ps' = ps"
    by simp_all
  with assms(3) have read: "Call (Read_text n) (Some (Exception msg)) \<in> set t0" by simp
  from apply_migrations_raised [OF failed(6) this] have msg: "msg' = msg" by simp
  from apply_migrations_failed_read [OF failed(6) read] obtain t' where
    t0: "t0 = t' @ [Call (Read_text n) (Some (Exception msg)), Exit_cursor, Exit_connection]"
    and fresh: "distinct (map path_name (sort_key path_name ps')) \<longrightarrow> Print (running n) \<notin> set t'"
    by blast
  have whole: "t = t' @ [Call (Read_text n) (Some (Exception msg)), Exit_cursor,
                         Exit_connection, Print (migration_failed msg)]"
    using t t0 msg by simp
  have "distinct (map path_name ps) \<longrightarrow> Print (running n) \<notin> set t"
    using fresh running_not_failed [of n msg]
    unfolding whole ps distinct_names_sorted by simp
  moreover have "migrations_applied \<notin> set (printed t0)"
    using failed(6) by (rule apply_migrations_not_applied)
  then have "migrations_applied \<notin> set (printed t)"
    using failed_not_applied [of msg'] by (auto simp: t trace_append)
  ultimately show ?thesis
    using whole r by (simp add: exit_status_def)
next
  case (applied env' url ps' t0 conn)
  from assms applied(7) have "Call (Read_text n) (Some (Exception msg)) \<in> set t0" by auto
  from apply_migrations_raised [OF applied(6) this] show ?thesis by simp
qed (use assms in auto)

theorem failed_read_is_reported_witness:
  "main (example_world None (Some unreadable_second) example_driver) database_env =
     ([Call (Connect (lit ''postgres://db'')) None, Call Cursor None,
       Call (Read_text (lit ''001_init.sql'')) None, Print (lit ''Running 001_init.sql...''),
       Call (Execute (lit ''create table'')) None,
       Call (Read_text (lit ''002_add_index.sql'')) (Some (Exception (lit ''permission denied''))),
       Exit_cursor, Exit_connection, Print (lit ''Migration failed: permission denied'')],
      Inr 1)
   \<and> distinct (map path_name unreadable_second)
   \<and> Print (running (lit ''002_add_index.sql''))
        \<notin> set (fst (main (example_world None (Some unreadable_second) example_driver) database_env))
   \<and> migrations_applied
        \<notin> set (printed
              (fst (main (example_world None (Some unreadable_second) example_driver) database_env)))"
proof -
  let ?w = "example_world None (Some unreadable_second) example_driver"
  let ?t = "[Call (Connect (lit ''postgres://db'')) None, Call Cursor None,
       Call (Read_text (lit ''001_init.sql'')) None, Print (lit ''Running 001_init.sql...''),
       Call (Execute (lit ''create table'')) None,
       Call (Read_text (lit ''002_add_index.sql'')) (Some (Exception (lit ''permission denied''))),
       Exit_cursor, Exit_connection, Print (lit ''Migration failed: permission denied'')]"
  have run: "main ?w database_env = (?t, Inr 1)"
    by (simp add: example_eval)
  have glob: "glob_sql ?w = Some unreadable_second" by (simp add: example_world_def)
  have names: "distinct (map path_name unreadable_second)"
    by (simp add: example_eval)
  have "Call (Read_text (lit ''002_add_index.sql'')) (Some (Exception (lit ''permission denied'')))
          \<in> set ?t"
    by simp
  from failed_read_is_reported [OF run glob this] run names show ?thesis
    by (simp add: migrations_applied_def running_def migration_failed_def lit_def commits_def)
qed

end
